theory Spec2Isabelle
  imports Main "HOL-Library.Sublist"
begin

section \<open>Data model of the dependency graph (DAG.tsx)\<close>

text \<open>
  JavaScript strings are modelled as \<^typ>\<open>string\<close>; a \<^typ>\<open>char\<close> stands for one code
  unit in the range U+0000 .. U+00FF. \<open>callCount\<close> is an integer (the data model of the
  specification), so the \<open>number\<close> of the source is an \<^typ>\<open>int\<close>.
\<close>

record TServiceCall =
  parent :: string
  child :: string
  callCount :: int

text \<open>\<open>TVertex\<close> and \<open>TEdge\<close> of the graph library, with the fields the component fills in.
  The field \<open>from\<close> of the source is \<open>from'\<close> here and \<open>to\<close> is \<open>to'\<close>.\<close>

record TVertex =
  key :: string

record TEdge =
  from' :: string
  to' :: string
  label :: string

text \<open>
  The two anonymous object types \<open>{nodes, edges}\<close> of the source. A \<open>Set<string>\<close> is a
  list without duplicates in insertion order, which is the order \<open>Array.from\<close> reads it in.
\<close>

record ('n, 'e) graph =
  nodes :: "'n list"
  edges :: "'e list"

definition Set_has :: "string list \<Rightarrow> string \<Rightarrow> bool" where
  "Set_has s x = (x \<in> set s)"

definition Set_add :: "string list \<Rightarrow> string \<Rightarrow> string list" where
  "Set_add s x = (if Set_has s x then s else s @ [x])"

section \<open>findConnectedServices\<close>

text \<open>
  The state of the traversal is the triple of the local variables \<open>nodes\<close>, \<open>edges\<close> and
  \<open>queue\<close>; a queue entry \<open>{service, depth}\<close> is a pair. \<open>visit_call\<close> is the body of the
  callback given to \<open>serviceCalls.forEach\<close>: two \<open>if\<close> statements, one after the other.
\<close>

type_synonym bfs_state = "string list \<times> TServiceCall list \<times> (string \<times> nat) list"

definition visit_call :: "string \<Rightarrow> nat \<Rightarrow> TServiceCall \<Rightarrow> bfs_state \<Rightarrow> bfs_state" where
  "visit_call service depth call st =
     (let st1 = (case st of (ns, es, queue) \<Rightarrow>
                   if parent call = service \<and> \<not> Set_has ns (child call)
                   then (Set_add ns (child call), es @ [call], queue @ [(child call, depth + 1)])
                   else (ns, es, queue))
      in (case st1 of (ns, es, queue) \<Rightarrow>
            if child call = service \<and> \<not> Set_has ns (parent call)
            then (Set_add ns (parent call), es @ [call], queue @ [(parent call, depth + 1)])
            else (ns, es, queue)))"

definition endpoints :: "TServiceCall list \<Rightarrow> string set" where
  "endpoints serviceCalls = parent ` set serviceCalls \<union> child ` set serviceCalls"

lemma visit_call_measure:
  assumes "call \<in> set serviceCalls"
    and "visit_call service depth call (ns, es, queue) = (ns', es', queue')"
  shows "length queue' + card (endpoints serviceCalls - set ns')
       = length queue + card (endpoints serviceCalls - set ns)"
proof -
  have fin: "finite (endpoints serviceCalls)"
    by (simp add: endpoints_def)
  have step: "card (endpoints serviceCalls - set (m @ [x])) + 1 = card (endpoints serviceCalls - set m)"
    if "x \<in> endpoints serviceCalls" "x \<notin> set m" for x m
  proof -
    have "endpoints serviceCalls - set (m @ [x]) = (endpoints serviceCalls - set m) - {x}"
      by auto
    moreover have "x \<in> endpoints serviceCalls - set m"
      using that by simp
    moreover have "finite (endpoints serviceCalls - set m)"
      using fin by simp
    ultimately show ?thesis
      by (metis One_nat_def Suc_eq_plus1 card_Suc_Diff1)
  qed
  have p: "parent call \<in> endpoints serviceCalls" and c: "child call \<in> endpoints serviceCalls"
    using assms(1) by (auto simp: endpoints_def)
  show ?thesis
    using assms(2) step[OF p] step[OF c]
    by (auto simp: visit_call_def Set_has_def Set_add_def Let_def split: if_splits)
qed

lemma forEach_measure:
  assumes "set cs \<subseteq> set serviceCalls"
    and "fold (visit_call service depth) cs (ns, es, queue) = (ns', es', queue')"
  shows "length queue' + card (endpoints serviceCalls - set ns')
       = length queue + card (endpoints serviceCalls - set ns)"
  using assms
proof (induction cs arbitrary: ns es queue)
  case Nil
  then show ?case by simp
next
  case (Cons c cs)
  obtain ns1 es1 q1 where v: "visit_call service depth c (ns, es, queue) = (ns1, es1, q1)"
    by (cases "visit_call service depth c (ns, es, queue)") auto
  have "c \<in> set serviceCalls"
    using Cons.prems(1) by simp
  from visit_call_measure[OF this v]
  have "length q1 + card (endpoints serviceCalls - set ns1)
      = length queue + card (endpoints serviceCalls - set ns)" .
  moreover have "length queue' + card (endpoints serviceCalls - set ns')
      = length q1 + card (endpoints serviceCalls - set ns1)"
    using Cons.IH[of ns1 es1 q1] Cons.prems v by simp
  ultimately show ?case by simp
qed

text \<open>
  The \<open>while (queue.length > 0)\<close> loop: \<open>queue.shift()\<close> takes the head, an entry at
  \<open>depth >= maxDepth\<close> is dropped (\<open>continue\<close>), any other entry runs the \<open>forEach\<close>
  over the whole edge list.
\<close>

function findConnectedServices_loop ::
  "TServiceCall list \<Rightarrow> int \<Rightarrow> bfs_state \<Rightarrow> string list \<times> TServiceCall list" where
  "findConnectedServices_loop serviceCalls maxDepth (ns, es, []) = (ns, es)"
| "findConnectedServices_loop serviceCalls maxDepth (ns, es, (service, depth) # queue) =
     (if int depth \<ge> maxDepth
      then findConnectedServices_loop serviceCalls maxDepth (ns, es, queue)
      else findConnectedServices_loop serviceCalls maxDepth
             (fold (visit_call service depth) serviceCalls (ns, es, queue)))"
  by pat_completeness auto

termination
proof (relation "measure (\<lambda>(serviceCalls, maxDepth, ns, es, queue).
                   length queue + card (endpoints serviceCalls - set ns))")
  show "wf (measure (\<lambda>(serviceCalls, maxDepth, ns, es, queue).
                   length queue + card (endpoints serviceCalls - set ns)))"
    by simp
next
  fix serviceCalls :: "TServiceCall list" and maxDepth :: int
    and ns :: "string list" and es :: "TServiceCall list"
    and service :: string and depth :: nat and queue :: "(string \<times> nat) list"
  show "((serviceCalls, maxDepth, ns, es, queue),
         (serviceCalls, maxDepth, ns, es, (service, depth) # queue))
        \<in> measure (\<lambda>(serviceCalls, maxDepth, ns, es, queue).
                   length queue + card (endpoints serviceCalls - set ns))"
    by simp
next
  fix serviceCalls :: "TServiceCall list" and maxDepth :: int and ns es service depth queue
  obtain ns' es' queue' where
    f: "fold (visit_call service depth) serviceCalls (ns, es, queue) = (ns', es', queue')"
    by (cases "fold (visit_call service depth) serviceCalls (ns, es, queue)") auto
  have "length queue' + card (endpoints serviceCalls - set ns')
      = length queue + card (endpoints serviceCalls - set ns)"
    by (rule forEach_measure[OF subset_refl f])
  then show "((serviceCalls, maxDepth, fold (visit_call service depth) serviceCalls (ns, es, queue)),
         (serviceCalls, maxDepth, ns, es, (service, depth) # queue))
        \<in> measure (\<lambda>(serviceCalls, maxDepth, ns, es, queue).
                   length queue + card (endpoints serviceCalls - set ns))"
    by (simp add: f)
qed

declare findConnectedServices_loop.simps [simp del]

definition findConnectedServices ::
  "TServiceCall list \<Rightarrow> string \<Rightarrow> int \<Rightarrow> (string, TServiceCall) graph" where
  "findConnectedServices serviceCalls startService maxDepth =
     (case findConnectedServices_loop serviceCalls maxDepth
             ([startService], [], [(startService, 0)]) of
        (ns, es) \<Rightarrow> \<lparr>nodes = ns, edges = es\<rparr>)"

section \<open>String operations of the source\<close>

text \<open>
  \<open>String.prototype.trim\<close> strips white space and line terminators at both ends. Among the
  code units U+0000 .. U+00FF these are TAB, LF, VT, FF, CR, SPACE and NO-BREAK SPACE.
\<close>

definition isWhiteSpace :: "char \<Rightarrow> bool" where
  "isWhiteSpace c =
     (c \<in> set [CHR 0x09, CHR 0x0A, CHR 0x0B, CHR 0x0C, CHR 0x0D, CHR 0x20, CHR 0xA0])"

definition trim :: "string \<Rightarrow> string" where
  "trim s = rev (dropWhile isWhiteSpace (rev (dropWhile isWhiteSpace s)))"




text \<open>The template literal \<open>`${n}`\<close> of an integer \<open>n\<close>: its decimal digits, with a minus
  sign when it is negative.\<close>

fun nat_to_string :: "nat \<Rightarrow> string" where
  "nat_to_string n =
     (if n < 10 then [''0123456789'' ! n]
      else nat_to_string (n div 10) @ [''0123456789'' ! (n mod 10)])"

declare nat_to_string.simps [simp del]

definition number_to_string :: "int \<Rightarrow> string" where
  "number_to_string i =
     (if i < 0 then CHR ''-'' # nat_to_string (nat (- i)) else nat_to_string (nat i))"

section \<open>formatServiceCalls\<close>

text \<open>
  \<open>nodeMap\<close> is an object literal \<open>{}\<close>, so reading \<open>nodeMap[k]\<close> finds the own property
  \<open>k\<close> when it was assigned and the property of \<open>Object.prototype\<close> otherwise. The own
  properties are a map; \<open>nodeMap_truthy\<close> is the truth value of \<open>nodeMap[k]\<close>. Every
  property of \<open>Object.prototype\<close> is a function or an object, which is truthy. Assigning
  \<open>true\<close> to \<open>__proto__\<close> calls the setter of \<open>Object.prototype\<close>, which ignores a value
  that is not an object.
\<close>

definition Object_prototype_keys :: "string list" where
  "Object_prototype_keys =
     [''constructor'', ''__defineGetter__'', ''__defineSetter__'', ''hasOwnProperty'',
      ''__lookupGetter__'', ''__lookupSetter__'', ''isPrototypeOf'', ''propertyIsEnumerable'',
      ''toString'', ''valueOf'', ''__proto__'', ''toLocaleString'']"

definition nodeMap_truthy :: "(string \<rightharpoonup> bool) \<Rightarrow> string \<Rightarrow> bool" where
  "nodeMap_truthy nodeMap k =
     (case nodeMap k of Some b \<Rightarrow> b | None \<Rightarrow> k \<in> set Object_prototype_keys)"

definition nodeMap_assign_true :: "(string \<rightharpoonup> bool) \<Rightarrow> string \<Rightarrow> (string \<rightharpoonup> bool)" where
  "nodeMap_assign_true nodeMap k = (if k = ''__proto__'' then nodeMap else nodeMap(k \<mapsto> True))"

definition toEdge :: "TServiceCall \<Rightarrow> TEdge" where
  "toEdge d = \<lparr>from' = parent d, to' = child d, label = number_to_string (callCount d)\<rparr>"

type_synonym format_state = "(string \<rightharpoonup> bool) \<times> TVertex list \<times> TEdge list"

text \<open>The body of the \<open>forEach\<close> of the unfiltered mode, on the local variables
  \<open>nodeMap\<close>, \<open>nodes\<close> and \<open>edges\<close>.\<close>

definition add_call :: "TServiceCall \<Rightarrow> format_state \<Rightarrow> format_state" where
  "add_call d st =
     (case st of (nodeMap, ns, es) \<Rightarrow>
        if length (trim (parent d)) \<noteq> 0 \<and> length (trim (child d)) \<noteq> 0
        then
          (let (nodeMap1, ns1) =
                 (if \<not> nodeMap_truthy nodeMap (parent d)
                  then (nodeMap_assign_true nodeMap (parent d), ns @ [\<lparr>key = parent d\<rparr>])
                  else (nodeMap, ns));
               (nodeMap2, ns2) =
                 (if \<not> nodeMap_truthy nodeMap1 (child d)
                  then (nodeMap_assign_true nodeMap1 (child d), ns1 @ [\<lparr>key = child d\<rparr>])
                  else (nodeMap1, ns1))
           in (nodeMap2, ns2, es @ [toEdge d]))
        else (nodeMap, ns, es))"

text \<open>
  \<open>selectedService\<close> is \<open>string | null\<close>: \<open>None\<close> is \<open>null\<close>. \<open>!selectedService\<close> holds
  for \<open>null\<close> and for the empty string.
\<close>

definition formatServiceCalls ::
  "TServiceCall list \<Rightarrow> string option \<Rightarrow> int \<Rightarrow> (TVertex, TEdge) graph" where
  "formatServiceCalls serviceCalls selectedService selectedDepth =
     (if selectedService = None \<or> selectedService = Some []
      then (case fold add_call serviceCalls (Map.empty, [], []) of
              (nodeMap, ns, es) \<Rightarrow> \<lparr>nodes = ns, edges = es\<rparr>)
      else (let connected = findConnectedServices serviceCalls (the selectedService) selectedDepth
            in \<lparr>nodes = map (\<lambda>k. \<lparr>key = k\<rparr>) (nodes connected),
                edges = map toEdge (edges connected)\<rparr>))"

section \<open>The DAG component\<close>

text \<open>
  What the component returns: the error panel with its message, or the \<open>Digraph\<close> element
  with its \<open>edges\<close> and \<open>vertices\<close>. \<open>DAG_MAX_NUM_SERVICES\<close> is imported from the constants
  module and is a parameter here.
\<close>

datatype element = DAG_error string | Digraph "TEdge list" "TVertex list"

definition DAG :: "nat \<Rightarrow> TServiceCall list \<Rightarrow> int \<Rightarrow> string \<Rightarrow> element" where
  "DAG DAG_MAX_NUM_SERVICES serviceCalls selectedDepth selectedService =
     (let data = formatServiceCalls serviceCalls (Some selectedService) selectedDepth;
          forceFocalServiceSelection = length (nodes data) > DAG_MAX_NUM_SERVICES
      in if forceFocalServiceSelection
         then DAG_error (''Too many services to render ('' @ nat_to_string (length (nodes data))
                @ ''). Hierarchical layout is disabled. For the Force-Directed layout, please select a focal service and the depth.'')
         else Digraph (edges data) (nodes data))"


section \<open>Notions the properties are stated with\<close>

text \<open>The edge list of the examples of the specification.\<close>

definition example_calls :: "TServiceCall list" where
  "example_calls =
     [\<lparr>parent = ''a'', child = ''b'', callCount = 3\<rparr>,
      \<lparr>parent = ''b'', child = ''c'', callCount = 5\<rparr>,
      \<lparr>parent = ''c'', child = ''d'', callCount = 1\<rparr>]"

text \<open>
  \<open>discovery seen ns es\<close>: the nodes \<open>ns\<close> were discovered one after the other through the
  edges \<open>es\<close>, starting from the nodes \<open>seen\<close>: the edge at each position joins a node that
  is new at this point to a node seen before.
\<close>

fun discovery :: "string list \<Rightarrow> string list \<Rightarrow> TServiceCall list \<Rightarrow> bool" where
  "discovery seen [] [] = True"
| "discovery seen (n # ns) (e # es) =
     (n \<notin> set seen
      \<and> ((parent e = n \<and> child e \<in> set seen) \<or> (child e = n \<and> parent e \<in> set seen))
      \<and> discovery (seen @ [n]) ns es)"
| "discovery seen _ _ = False"

text \<open>\<open>linked E s x\<close>: a path of edges of \<open>E\<close>, each taken in either direction, leads from
  \<open>s\<close> to \<open>x\<close>.\<close>

inductive linked :: "TServiceCall list \<Rightarrow> string \<Rightarrow> string \<Rightarrow> bool"
  for E :: "TServiceCall list" and s :: string where
  linked_start: "linked E s s"
| linked_down: "linked E s x \<Longrightarrow> e \<in> set E \<Longrightarrow> parent e = x \<Longrightarrow> linked E s (child e)"
| linked_up: "linked E s x \<Longrightarrow> e \<in> set E \<Longrightarrow> child e = x \<Longrightarrow> linked E s (parent e)"

code_pred linked .

text \<open>
  \<open>hops serviceCalls s k x\<close>: a walk of exactly \<open>k\<close> edges, each taken in either direction,
  leads from \<open>s\<close> to \<open>x\<close>. \<open>within_hops serviceCalls s k\<close> lists the services at most \<open>k\<close>
  such hops away from \<open>s\<close> (a service may be listed more than once).
\<close>

inductive hops :: "TServiceCall list \<Rightarrow> string \<Rightarrow> nat \<Rightarrow> string \<Rightarrow> bool"
  for serviceCalls :: "TServiceCall list" and s :: string where
  hops_none: "hops serviceCalls s 0 s"
| hops_down: "hops serviceCalls s k y \<Longrightarrow> c \<in> set serviceCalls \<Longrightarrow> parent c = y
              \<Longrightarrow> hops serviceCalls s (Suc k) (child c)"
| hops_up: "hops serviceCalls s k y \<Longrightarrow> c \<in> set serviceCalls \<Longrightarrow> child c = y
              \<Longrightarrow> hops serviceCalls s (Suc k) (parent c)"

code_pred hops .

fun within_hops :: "TServiceCall list \<Rightarrow> string \<Rightarrow> nat \<Rightarrow> string list" where
  "within_hops serviceCalls s 0 = [s]"
| "within_hops serviceCalls s (Suc k) =
     (let w = within_hops serviceCalls s k
      in w @ map child (filter (\<lambda>c. parent c \<in> set w) serviceCalls)
           @ map parent (filter (\<lambda>c. child c \<in> set w) serviceCalls))"

text \<open>
  A name is \<open>whitespace_only\<close> when it is empty or made of white space; a call \<open>survives\<close> the
  filter of the unfiltered mode when neither of its names is. \<open>first_seen\<close> keeps the first
  occurrence of every element; \<open>call_names\<close> lists the names of the calls, parent before child.
\<close>

definition whitespace_only :: "string \<Rightarrow> bool" where
  "whitespace_only s = list_all isWhiteSpace s"

definition survives :: "TServiceCall \<Rightarrow> bool" where
  "survives d = (\<not> whitespace_only (parent d) \<and> \<not> whitespace_only (child d))"

definition first_seen :: "string list \<Rightarrow> string list" where
  "first_seen xs = rev (remdups (rev xs))"

definition call_names :: "TServiceCall list \<Rightarrow> string list" where
  "call_names ds = concat (map (\<lambda>d. [parent d, child d]) ds)"


text \<open>The message of the error panel for a node count, and the number a string of decimal
  digits denotes.\<close>

definition too_many_services :: "nat \<Rightarrow> string" where
  "too_many_services n =
     ''Too many services to render ('' @ nat_to_string n
       @ ''). Hierarchical layout is disabled. For the Force-Directed layout, please select a focal service and the depth.''"

definition string_to_nat :: "string \<Rightarrow> nat" where
  "string_to_nat s = foldl (\<lambda>a c. 10 * a + (of_char c - 48)) 0 s"

section \<open>Invariants of the traversal\<close>

lemma forEach_invariant:
  assumes "J st"
    and "\<And>call st. call \<in> set cs \<Longrightarrow> J st \<Longrightarrow> J (visit_call service depth call st)"
  shows "J (fold (visit_call service depth) cs st)"
  using assms by (induction cs arbitrary: st) auto

lemma findConnectedServices_loop_invariant:
  assumes "I st"
    and "\<And>ns es s d q. I (ns, es, (s, d) # q) \<Longrightarrow> maxDepth \<le> int d \<Longrightarrow> I (ns, es, q)"
    and "\<And>ns es s d q. I (ns, es, (s, d) # q) \<Longrightarrow> \<not> maxDepth \<le> int d
                   \<Longrightarrow> I (fold (visit_call s d) serviceCalls (ns, es, q))"
  shows "case findConnectedServices_loop serviceCalls maxDepth st of
           (ns', es') \<Rightarrow> I (ns', es', [])"
  using assms
proof (induction serviceCalls maxDepth st rule: findConnectedServices_loop.induct)
  case (1 serviceCalls maxDepth ns es)
  then show ?case by (simp add: findConnectedServices_loop.simps)
next
  case (2 serviceCalls maxDepth ns es service depth queue)
  note init = "2.prems"(1) and pop = "2.prems"(2) and expand = "2.prems"(3)
  show ?case
  proof (cases "maxDepth \<le> int depth")
    case True
    have "I (ns, es, queue)"
      by (rule pop[OF init True])
    from "2.IH"(1)[OF True this pop expand] True
    show ?thesis by (simp add: findConnectedServices_loop.simps)
  next
    case False
    have "I (fold (visit_call service depth) serviceCalls (ns, es, queue))"
      by (rule expand[OF init False])
    from "2.IH"(2)[OF False this pop expand] False
    show ?thesis by (simp add: findConnectedServices_loop.simps)
  qed
qed

lemma discovery_length: "discovery seen ns es \<Longrightarrow> length ns = length es"
  by (induction seen ns es rule: discovery.induct) auto

lemma discovery_distinct: "discovery seen ns es \<Longrightarrow> distinct seen \<Longrightarrow> distinct (seen @ ns)"
  by (induction seen ns es rule: discovery.induct) auto

lemma discovery_snoc:
  "discovery seen ns es \<Longrightarrow> n \<notin> set (seen @ ns)
   \<Longrightarrow> (parent e = n \<and> child e \<in> set (seen @ ns)) \<or> (child e = n \<and> parent e \<in> set (seen @ ns))
   \<Longrightarrow> discovery seen (ns @ [n]) (es @ [e])"
  by (induction seen ns es rule: discovery.induct) auto

text \<open>The invariant of the loop: the nodes were discovered through the edges, the edges are
  input edges, and every service in the queue is a node.\<close>

definition bfs_inv :: "TServiceCall list \<Rightarrow> string \<Rightarrow> bfs_state \<Rightarrow> bool" where
  "bfs_inv serviceCalls startService st =
     (case st of (ns, es, queue) \<Rightarrow>
        (\<exists>ms. ns = startService # ms \<and> discovery [startService] ms es)
        \<and> set es \<subseteq> set serviceCalls
        \<and> (\<forall>x \<in> set queue. fst x \<in> set ns))"

lemma bfs_inv_discover:
  assumes "bfs_inv serviceCalls startService (ns, es, queue)"
    and "call \<in> set serviceCalls" "x \<notin> set ns" "y \<in> set ns"
    and "(parent call = x \<and> child call = y) \<or> (child call = x \<and> parent call = y)"
  shows "bfs_inv serviceCalls startService (ns @ [x], es @ [call], queue @ [(x, d)])"
proof -
  from assms(1) obtain ms where ms: "ns = startService # ms" "discovery [startService] ms es"
    and es: "set es \<subseteq> set serviceCalls" and q: "\<forall>e \<in> set queue. fst e \<in> set ns"
    by (auto simp: bfs_inv_def)
  have "discovery [startService] (ms @ [x]) (es @ [call])"
    using ms assms(3,4,5) by (intro discovery_snoc) auto
  then show ?thesis
    using ms es q assms(2) by (auto simp: bfs_inv_def)
qed

lemma visit_call_bfs_inv:
  assumes "call \<in> set serviceCalls"
    and "bfs_inv serviceCalls startService st \<and> service \<in> set (fst st)"
  shows "bfs_inv serviceCalls startService (visit_call service depth call st)
         \<and> service \<in> set (fst (visit_call service depth call st))"
proof -
  obtain ns es queue where st: "st = (ns, es, queue)"
    by (cases st) auto
  have inv: "bfs_inv serviceCalls startService (ns, es, queue)" and s: "service \<in> set ns"
    using assms(2) st by auto
  let ?st1 = "if parent call = service \<and> \<not> Set_has ns (child call)
              then (Set_add ns (child call), es @ [call], queue @ [(child call, depth + 1)])
              else (ns, es, queue)"
  have 1: "bfs_inv serviceCalls startService ?st1 \<and> service \<in> set (fst ?st1)"
    using bfs_inv_discover[OF inv assms(1), of "child call" service "depth + 1"] inv s
    by (auto simp: Set_has_def Set_add_def)
  obtain ns1 es1 q1 where st1: "?st1 = (ns1, es1, q1)"
    by (cases ?st1) auto
  have inv1: "bfs_inv serviceCalls startService (ns1, es1, q1)" and s1: "service \<in> set ns1"
    using 1 st1 by auto
  let ?st2 = "if child call = service \<and> \<not> Set_has ns1 (parent call)
              then (Set_add ns1 (parent call), es1 @ [call], q1 @ [(parent call, depth + 1)])
              else (ns1, es1, q1)"
  have 2: "bfs_inv serviceCalls startService ?st2 \<and> service \<in> set (fst ?st2)"
    using bfs_inv_discover[OF inv1 assms(1), of "parent call" service "depth + 1"] inv1 s1
    by (auto simp: Set_has_def Set_add_def)
  have "visit_call service depth call st = ?st2"
    unfolding visit_call_def st Let_def using st1 by simp
  then show ?thesis
    using 2 by simp
qed

lemma expand_bfs_inv:
  assumes "bfs_inv serviceCalls startService (ns, es, (s, d) # q)"
  shows "bfs_inv serviceCalls startService (fold (visit_call s d) serviceCalls (ns, es, q))"
proof -
  have "bfs_inv serviceCalls startService (ns, es, q) \<and> s \<in> set (fst (ns, es, q))"
    using assms by (auto simp: bfs_inv_def)
  then have "bfs_inv serviceCalls startService (fold (visit_call s d) serviceCalls (ns, es, q))
           \<and> s \<in> set (fst (fold (visit_call s d) serviceCalls (ns, es, q)))"
    by (rule forEach_invariant) (rule visit_call_bfs_inv)
  then show ?thesis ..
qed

lemma findConnectedServices_bfs_inv:
  "bfs_inv serviceCalls startService
     (nodes (findConnectedServices serviceCalls startService maxDepth),
      edges (findConnectedServices serviceCalls startService maxDepth), [])"
proof -
  have "case findConnectedServices_loop serviceCalls maxDepth ([startService], [], [(startService, 0)]) of
          (ns', es') \<Rightarrow> bfs_inv serviceCalls startService (ns', es', [])"
  proof (rule findConnectedServices_loop_invariant)
    show "bfs_inv serviceCalls startService ([startService], [], [(startService, 0)])"
      by (simp add: bfs_inv_def)
  next
    fix ns es s d q
    assume "bfs_inv serviceCalls startService (ns, es, (s, d) # q)"
    then show "bfs_inv serviceCalls startService (ns, es, q)"
      by (simp add: bfs_inv_def)
  next
    fix ns es s d q
    assume "bfs_inv serviceCalls startService (ns, es, (s, d) # q)"
    then show "bfs_inv serviceCalls startService (fold (visit_call s d) serviceCalls (ns, es, q))"
      by (rule expand_bfs_inv)
  qed
  then show ?thesis
    by (simp add: findConnectedServices_def split: prod.splits)
qed

lemma discovery_linked:
  assumes "discovery seen ms es" "set es \<subseteq> set E" "\<forall>x \<in> set seen. linked E s x"
  shows "\<forall>x \<in> set (seen @ ms). linked E s x"
  using assms
proof (induction seen ms es rule: discovery.induct)
  case (2 seen n ns e es)
  have e: "e \<in> set E"
    using "2.prems"(2) by simp
  have "linked E s n"
    using "2.prems"(1,3) linked_down[OF _ e] linked_up[OF _ e] by auto
  then have "\<forall>x \<in> set (seen @ [n]). linked E s x"
    using "2.prems"(3) by simp
  with "2.IH" "2.prems" show ?case by simp
qed simp_all



lemma findConnectedServices_discovery:
  obtains ms where "nodes (findConnectedServices serviceCalls startService maxDepth) = startService # ms"
    and "discovery [startService] ms (edges (findConnectedServices serviceCalls startService maxDepth))"
  using findConnectedServices_bfs_inv[of serviceCalls startService maxDepth]
  by (auto simp: bfs_inv_def)


lemma findConnectedServices_distinct:
  "distinct (nodes (findConnectedServices serviceCalls startService maxDepth))"
proof -
  obtain ms where ms: "nodes (findConnectedServices serviceCalls startService maxDepth) = startService # ms"
    "discovery [startService] ms (edges (findConnectedServices serviceCalls startService maxDepth))"
    by (rule findConnectedServices_discovery)
  from discovery_distinct[OF ms(2)] ms(1) show ?thesis by simp
qed

section \<open>Distance from the focal service\<close>

lemma within_hops_mono: "k \<le> k' \<Longrightarrow> set (within_hops serviceCalls s k) \<subseteq> set (within_hops serviceCalls s k')"
proof (induction k' arbitrary: k)
  case 0
  then show ?case by simp
next
  case (Suc k')
  show ?case
  proof (cases "k = Suc k'")
    case True
    then show ?thesis by simp
  next
    case False
    then have "k \<le> k'" using Suc.prems by simp
    from Suc.IH[OF this] show ?thesis
      by (auto simp: Let_def)
  qed
qed

lemma within_hops_step:
  assumes "c \<in> set serviceCalls" "y \<in> set (within_hops serviceCalls s k)"
  shows "parent c = y \<Longrightarrow> child c \<in> set (within_hops serviceCalls s (Suc k))"
    and "child c = y \<Longrightarrow> parent c \<in> set (within_hops serviceCalls s (Suc k))"
  using assms by (auto simp: Let_def)

lemma hops_within_hops: "hops serviceCalls s k x \<Longrightarrow> x \<in> set (within_hops serviceCalls s k)"
proof (induction rule: hops.induct)
  case hops_none
  show ?case by simp
next
  case (hops_down k y c)
  then show ?case
    using within_hops_step(1) by blast
next
  case (hops_up k y c)
  then show ?case
    using within_hops_step(2) by blast
qed

lemma within_hops_hops:
  "x \<in> set (within_hops serviceCalls s k) \<Longrightarrow> \<exists>j\<le>k. hops serviceCalls s j x"
proof (induction k arbitrary: x)
  case 0
  then show ?case
    by (auto intro: hops_none)
next
  case (Suc k)
  let ?w = "within_hops serviceCalls s k"
  from Suc.prems consider "x \<in> set ?w"
    | c where "c \<in> set serviceCalls" "parent c \<in> set ?w" "x = child c"
    | c where "c \<in> set serviceCalls" "child c \<in> set ?w" "x = parent c"
    by (auto simp: Let_def)
  then show ?case
  proof cases
    case 1
    from Suc.IH[OF this] show ?thesis
      using le_Suc_eq by blast
  next
    case 2
    from Suc.IH[OF 2(2)] obtain j where j: "j \<le> k" "hops serviceCalls s j (parent c)"
      by blast
    have "hops serviceCalls s (Suc j) (child c)"
      by (rule hops_down[OF j(2) 2(1) refl])
    then show ?thesis
      using j(1) 2(3) Suc_le_mono by blast
  next
    case 3
    from Suc.IH[OF 3(2)] obtain j where j: "j \<le> k" "hops serviceCalls s j (child c)"
      by blast
    have "hops serviceCalls s (Suc j) (parent c)"
      by (rule hops_up[OF j(2) 3(1) refl])
    then show ?thesis
      using j(1) 3(3) Suc_le_mono by blast
  qed
qed

lemma within_hops_iff:
  "(x \<in> set (within_hops serviceCalls s k)) = (\<exists>j\<le>k. hops serviceCalls s j x)"
  using within_hops_hops hops_within_hops within_hops_mono by blast

lemma within_hops_Collect:
  "{x. \<exists>j\<le>k. hops serviceCalls s j x} = set (within_hops serviceCalls s k)"
  using within_hops_iff by blast

text \<open>Every node is within \<open>K\<close> hops, and a service queued at depth \<open>d\<close> is within \<open>d\<close> hops.\<close>

definition reach_inv :: "TServiceCall list \<Rightarrow> string \<Rightarrow> nat \<Rightarrow> bfs_state \<Rightarrow> bool" where
  "reach_inv serviceCalls startService K st =
     (case st of (ns, es, queue) \<Rightarrow>
        (\<forall>n \<in> set ns. n \<in> set (within_hops serviceCalls startService K))
        \<and> (\<forall>(s, d) \<in> set queue. s \<in> set (within_hops serviceCalls startService d)))"

lemma visit_call_reach_inv:
  assumes "call \<in> set serviceCalls"
    and "service \<in> set (within_hops serviceCalls startService depth)" "Suc depth \<le> K"
    and "reach_inv serviceCalls startService K st"
  shows "reach_inv serviceCalls startService K (visit_call service depth call st)"
proof -
  obtain ns es queue where st: "st = (ns, es, queue)"
    by (cases st) auto
  have sub: "set (within_hops serviceCalls startService (Suc depth))
               \<subseteq> set (within_hops serviceCalls startService K)"
    by (rule within_hops_mono[OF assms(3)])
  have c: "parent call = service \<Longrightarrow> child call \<in> set (within_hops serviceCalls startService (Suc depth))"
    and p: "child call = service \<Longrightarrow> parent call \<in> set (within_hops serviceCalls startService (Suc depth))"
    using within_hops_step[OF assms(1,2)] by blast+
  show ?thesis
    using assms(4) sub c p unfolding st reach_inv_def visit_call_def Let_def Set_add_def Set_has_def
    by (auto simp del: within_hops.simps)
qed

lemma findConnectedServices_reach_inv:
  "reach_inv serviceCalls startService (nat maxDepth)
     (nodes (findConnectedServices serviceCalls startService maxDepth),
      edges (findConnectedServices serviceCalls startService maxDepth), [])"
proof -
  have "case findConnectedServices_loop serviceCalls maxDepth ([startService], [], [(startService, 0)]) of
          (ns', es') \<Rightarrow> reach_inv serviceCalls startService (nat maxDepth) (ns', es', [])"
  proof (rule findConnectedServices_loop_invariant)
    have "startService \<in> set (within_hops serviceCalls startService (nat maxDepth))"
      using within_hops_mono[of 0 "nat maxDepth" serviceCalls startService] by simp
    then show "reach_inv serviceCalls startService (nat maxDepth) ([startService], [], [(startService, 0)])"
      by (simp add: reach_inv_def)
  next
    fix ns es s d q
    assume "reach_inv serviceCalls startService (nat maxDepth) (ns, es, (s, d) # q)"
    then show "reach_inv serviceCalls startService (nat maxDepth) (ns, es, q)"
      by (simp add: reach_inv_def)
  next
    fix ns es s d q
    assume inv: "reach_inv serviceCalls startService (nat maxDepth) (ns, es, (s, d) # q)"
      and d: "\<not> maxDepth \<le> int d"
    have s: "s \<in> set (within_hops serviceCalls startService d)"
      using inv by (simp add: reach_inv_def)
    have K: "Suc d \<le> nat maxDepth"
      using d by linarith
    have "reach_inv serviceCalls startService (nat maxDepth) (ns, es, q)"
      using inv by (simp add: reach_inv_def)
    then show "reach_inv serviceCalls startService (nat maxDepth)
                 (fold (visit_call s d) serviceCalls (ns, es, q))"
      by (rule forEach_invariant) (rule visit_call_reach_inv[OF _ s K])
  qed
  then show ?thesis
    by (simp add: findConnectedServices_def split: prod.splits)
qed

section \<open>Invariants of the unfiltered mode\<close>

lemma dropWhile_all_iff: "(\<forall>c \<in> set (dropWhile P xs). P c) = (dropWhile P xs = [])"
proof
  assume all: "\<forall>c \<in> set (dropWhile P xs). P c"
  show "dropWhile P xs = []"
  proof (rule ccontr)
    assume ne: "dropWhile P xs \<noteq> []"
    then have "\<not> P (hd (dropWhile P xs))"
      by (rule hd_dropWhile)
    moreover have "hd (dropWhile P xs) \<in> set (dropWhile P xs)"
      using ne by (rule hd_in_set)
    ultimately show False
      using all by blast
  qed
next
  assume e: "dropWhile P xs = []"
  show "\<forall>c \<in> set (dropWhile P xs). P c"
    unfolding e by simp
qed

lemma trim_empty_iff: "(trim s = []) = whitespace_only s"
proof -
  have "(trim s = []) = (\<forall>c \<in> set (dropWhile isWhiteSpace s). isWhiteSpace c)"
    by (simp add: trim_def dropWhile_eq_Nil_conv)
  also have "\<dots> = (dropWhile isWhiteSpace s = [])"
    by (rule dropWhile_all_iff)
  also have "\<dots> = whitespace_only s"
    by (simp add: dropWhile_eq_Nil_conv whitespace_only_def list_all_iff)
  finally show ?thesis .
qed

lemma first_seen_snoc:
  "first_seen (xs @ [x]) = (if x \<in> set xs then first_seen xs else first_seen xs @ [x])"
  by (simp add: first_seen_def)

lemma set_first_seen: "set (first_seen xs) = set xs"
  by (simp add: first_seen_def)

lemma distinct_first_seen: "distinct (first_seen xs)"
  by (simp add: first_seen_def)

text \<open>\<open>nodeMap[k]\<close> is truthy for the names seen so far and the names of \<open>Object.prototype\<close>,
  and the vertices are the names seen so far that \<open>Object.prototype\<close> has no property for.\<close>

definition nodes_inv :: "(string \<rightharpoonup> bool) \<Rightarrow> TVertex list \<Rightarrow> string list \<Rightarrow> bool" where
  "nodes_inv nodeMap ns names =
     (map key ns = filter (\<lambda>k. k \<notin> set Object_prototype_keys) (first_seen names)
      \<and> (\<forall>k. nodeMap_truthy nodeMap k = (k \<in> set Object_prototype_keys \<or> k \<in> set names)))"

lemma nodes_inv_push:
  assumes "nodes_inv nodeMap ns names"
    and "(if \<not> nodeMap_truthy nodeMap k
          then (nodeMap_assign_true nodeMap k, ns @ [\<lparr>key = k\<rparr>])
          else (nodeMap, ns)) = (nodeMap', ns')"
  shows "nodes_inv nodeMap' ns' (names @ [k])"
proof (cases "nodeMap_truthy nodeMap k")
  case True
  then have "k \<in> set Object_prototype_keys \<or> k \<in> set names"
    using assms(1) by (simp add: nodes_inv_def)
  then show ?thesis
    using assms True by (auto simp: nodes_inv_def first_seen_snoc)
next
  case False
  then have k: "k \<notin> set Object_prototype_keys" "k \<notin> set names"
    using assms(1) by (auto simp: nodes_inv_def)
  then have "k \<noteq> ''__proto__''"
    by (auto simp: Object_prototype_keys_def)
  then have m: "nodeMap' = nodeMap(k \<mapsto> True)" and n: "ns' = ns @ [\<lparr>key = k\<rparr>]"
    using assms(2) False by (auto simp: nodeMap_assign_true_def)
  have "\<forall>k'. nodeMap_truthy nodeMap' k' = (k' \<in> set Object_prototype_keys \<or> k' \<in> set (names @ [k]))"
    using assms(1) unfolding m nodes_inv_def nodeMap_truthy_def by auto
  moreover have "map key ns' = filter (\<lambda>k. k \<notin> set Object_prototype_keys) (first_seen (names @ [k]))"
    using assms(1) k unfolding n nodes_inv_def by (simp add: first_seen_snoc)
  ultimately show ?thesis
    by (simp add: nodes_inv_def)
qed

definition format_inv :: "TServiceCall list \<Rightarrow> format_state \<Rightarrow> bool" where
  "format_inv cs st =
     (case st of (nodeMap, ns, es) \<Rightarrow>
        nodes_inv nodeMap ns (call_names (filter survives cs))
        \<and> es = map toEdge (filter survives cs))"

lemma add_call_format_inv:
  assumes "format_inv cs st"
  shows "format_inv (cs @ [d]) (add_call d st)"
proof -
  obtain nodeMap ns es where st: "st = (nodeMap, ns, es)"
    by (cases st) auto
  have inv: "nodes_inv nodeMap ns (call_names (filter survives cs))"
    and es: "es = map toEdge (filter survives cs)"
    using assms by (auto simp: format_inv_def st)
  show ?thesis
  proof (cases "survives d")
    case False
    then have "add_call d st = st"
      by (auto simp: add_call_def st survives_def trim_empty_iff)
    then show ?thesis
      using assms False by (simp add: format_inv_def st)
  next
    case True
    obtain m1 ns1 where 1: "(if \<not> nodeMap_truthy nodeMap (parent d)
          then (nodeMap_assign_true nodeMap (parent d), ns @ [\<lparr>key = parent d\<rparr>])
          else (nodeMap, ns)) = (m1, ns1)"
      by fastforce
    obtain m2 ns2 where 2: "(if \<not> nodeMap_truthy m1 (child d)
          then (nodeMap_assign_true m1 (child d), ns1 @ [\<lparr>key = child d\<rparr>])
          else (m1, ns1)) = (m2, ns2)"
      by fastforce
    have "add_call d st = (m2, ns2, es @ [toEdge d])"
      using True 1 2 by (simp add: add_call_def st survives_def trim_empty_iff)
    moreover have "nodes_inv m2 ns2 ((call_names (filter survives cs) @ [parent d]) @ [child d])"
      by (rule nodes_inv_push[OF nodes_inv_push[OF inv 1] 2])
    ultimately show ?thesis
      using True es by (simp add: format_inv_def call_names_def)
  qed
qed

lemma forEach_format_inv: "format_inv cs (fold add_call cs (Map.empty, [], []))"
proof (induction cs rule: rev_induct)
  case Nil
  show ?case
    by (simp add: format_inv_def nodes_inv_def call_names_def first_seen_def nodeMap_truthy_def)
next
  case (snoc d cs)
  then show ?case
    using add_call_format_inv by simp
qed

lemma formatServiceCalls_unfiltered:
  assumes "selectedService = None \<or> selectedService = Some []"
  shows "edges (formatServiceCalls serviceCalls selectedService selectedDepth)
           = map toEdge (filter survives serviceCalls)"
    and "map key (nodes (formatServiceCalls serviceCalls selectedService selectedDepth))
           = filter (\<lambda>k. k \<notin> set Object_prototype_keys)
               (first_seen (call_names (filter survives serviceCalls)))"
  using forEach_format_inv[of serviceCalls] assms
  by (auto simp: formatServiceCalls_def format_inv_def nodes_inv_def split: prod.splits)


lemma whitespace_only_Nil: "whitespace_only []"
  by (simp add: whitespace_only_def)

lemma call_names_survive:
  "k \<in> set (call_names (filter survives serviceCalls)) \<Longrightarrow> \<not> whitespace_only k"
  by (auto simp: call_names_def survives_def)


section \<open>Strings\<close>



lemma digit_of_char: "d < 10 \<Longrightarrow> of_char (''0123456789'' ! d) = (48 + d :: nat)"
proof -
  assume "d < 10"
  then have "d = 0 \<or> d = 1 \<or> d = 2 \<or> d = 3 \<or> d = 4 \<or> d = 5 \<or> d = 6 \<or> d = 7 \<or> d = 8 \<or> d = 9"
    by arith
  then show ?thesis
    by (elim disjE) simp_all
qed

lemma string_to_nat_to_string: "string_to_nat (nat_to_string n) = n"
proof (induction n rule: nat_to_string.induct)
  case (1 n)
  show ?case
  proof (cases "n < 10")
    case True
    then show ?thesis
      by (subst nat_to_string.simps) (simp add: digit_of_char string_to_nat_def)
  next
    case False
    have "n mod 10 < 10" by simp
    with 1[OF False] False show ?thesis
      by (subst nat_to_string.simps) (simp add: digit_of_char string_to_nat_def)
  qed
qed

section \<open>Properties of findConnectedServices\<close>

text \<open>
  C1. On the edges \<open>a \<rightarrow> b\<close> (3), \<open>b \<rightarrow> c\<close> (5), \<open>c \<rightarrow> d\<close> (1) with focal service \<open>b\<close>, depth 1
  gives the nodes \<open>b, a, c\<close> and the edges \<open>a \<rightarrow> b\<close> and \<open>b \<rightarrow> c\<close>; depth 2 gives the nodes
  \<open>b, a, c, d\<close> and all three edges.
\<close>

theorem C1_example:
  "findConnectedServices
     [\<lparr>parent = ''a'', child = ''b'', callCount = 3\<rparr>,
      \<lparr>parent = ''b'', child = ''c'', callCount = 5\<rparr>,
      \<lparr>parent = ''c'', child = ''d'', callCount = 1\<rparr>] ''b'' 1
   = \<lparr>nodes = [''b'', ''a'', ''c''],
      edges = [\<lparr>parent = ''a'', child = ''b'', callCount = 3\<rparr>,
               \<lparr>parent = ''b'', child = ''c'', callCount = 5\<rparr>]\<rparr>
   \<and> findConnectedServices
     [\<lparr>parent = ''a'', child = ''b'', callCount = 3\<rparr>,
      \<lparr>parent = ''b'', child = ''c'', callCount = 5\<rparr>,
      \<lparr>parent = ''c'', child = ''d'', callCount = 1\<rparr>] ''b'' 2
   = \<lparr>nodes = [''b'', ''a'', ''c'', ''d''],
      edges = [\<lparr>parent = ''a'', child = ''b'', callCount = 3\<rparr>,
               \<lparr>parent = ''b'', child = ''c'', callCount = 5\<rparr>,
               \<lparr>parent = ''c'', child = ''d'', callCount = 1\<rparr>]\<rparr>"
  by code_simp




text \<open>
  C3. The result has one edge fewer than it has nodes, its nodes are pairwise distinct, the
  first of them is the focal service, every edge joins a node that was not discovered before
  to one that was (\<open>discovery\<close>), and every node is linked to the focal service through the
  returned edges: the returned edges are a spanning tree of the discovered nodes.
\<close>

theorem C3_spanning_tree:
  "length (edges (findConnectedServices serviceCalls startService maxDepth)) + 1
     = length (nodes (findConnectedServices serviceCalls startService maxDepth))
   \<and> distinct (nodes (findConnectedServices serviceCalls startService maxDepth))
   \<and> hd (nodes (findConnectedServices serviceCalls startService maxDepth)) = startService
   \<and> discovery [startService]
        (tl (nodes (findConnectedServices serviceCalls startService maxDepth)))
        (edges (findConnectedServices serviceCalls startService maxDepth))
   \<and> (\<forall>n \<in> set (nodes (findConnectedServices serviceCalls startService maxDepth)).
        linked (edges (findConnectedServices serviceCalls startService maxDepth))
          startService n)"
proof -
  let ?r = "findConnectedServices serviceCalls startService maxDepth"
  obtain ms where ms: "nodes ?r = startService # ms" "discovery [startService] ms (edges ?r)"
    by (rule findConnectedServices_discovery)
  have "length (edges ?r) + 1 = length (nodes ?r)"
    using discovery_length[OF ms(2)] ms(1) by simp
  moreover have "distinct (nodes ?r)"
    by (rule findConnectedServices_distinct)
  moreover have "hd (nodes ?r) = startService"
    using ms by simp
  moreover have "discovery [startService] (tl (nodes ?r)) (edges ?r)"
    using ms by simp
  moreover have "\<forall>n \<in> set (nodes ?r). linked (edges ?r) startService n"
    using discovery_linked[OF ms(2) subset_refl, of startService] ms(1)
    by (simp add: linked_start)
  ultimately show ?thesis by blast
qed

text \<open>C3 at the example, depth 2, for the node \<open>d\<close>.\<close>

theorem C3_spanning_tree_witness:
  "length (edges (findConnectedServices example_calls ''b'' 2)) + 1
     = length (nodes (findConnectedServices example_calls ''b'' 2))
   \<and> distinct (nodes (findConnectedServices example_calls ''b'' 2))
   \<and> hd (nodes (findConnectedServices example_calls ''b'' 2)) = ''b''
   \<and> discovery [''b''] (tl (nodes (findConnectedServices example_calls ''b'' 2)))
        (edges (findConnectedServices example_calls ''b'' 2))
   \<and> ''d'' \<in> set (nodes (findConnectedServices example_calls ''b'' 2))
   \<and> linked (edges (findConnectedServices example_calls ''b'' 2)) ''b'' ''d''"
proof -
  have n: "''d'' \<in> set (nodes (findConnectedServices example_calls ''b'' 2))"
    by code_simp
  from C3_spanning_tree[of example_calls "''b''" 2] n show ?thesis
    by blast
qed

text \<open>
  C4. With \<open>maxDepth = 0\<close> the result of \<open>findConnectedServices\<close> is the focal service alone
  and no edge, for every edge list; so is the result of \<open>formatServiceCalls\<close> in focal mode
  (a focal service that is not the empty string).
\<close>

theorem C4_depth_zero:
  "findConnectedServices serviceCalls startService 0 = \<lparr>nodes = [startService], edges = []\<rparr>
   \<and> (startService \<noteq> [] \<longrightarrow>
        formatServiceCalls serviceCalls (Some startService) 0
        = \<lparr>nodes = [\<lparr>key = startService\<rparr>], edges = []\<rparr>)"
  by (simp add: findConnectedServices_def formatServiceCalls_def findConnectedServices_loop.simps)

text \<open>C4 at the edge \<open>a \<rightarrow> b\<close> and the focal service \<open>a\<close>.\<close>

theorem C4_depth_zero_witness:
  "findConnectedServices [\<lparr>parent = ''a'', child = ''b'', callCount = 3\<rparr>] ''a'' 0
     = \<lparr>nodes = [''a''], edges = []\<rparr>
   \<and> ''a'' \<noteq> []
   \<and> formatServiceCalls [\<lparr>parent = ''a'', child = ''b'', callCount = 3\<rparr>] (Some ''a'') 0
     = \<lparr>nodes = [\<lparr>key = ''a''\<rparr>], edges = []\<rparr>"
  using C4_depth_zero[of "[\<lparr>parent = ''a'', child = ''b'', callCount = 3\<rparr>]" "''a''"]
  by simp

text \<open>
  C5. The focal service is among the nodes of \<open>findConnectedServices\<close> and of
  \<open>formatServiceCalls\<close> in focal mode, for every edge list and every depth, whether or not an
  edge names it.
\<close>

theorem C5_focal_present:
  "startService \<in> set (nodes (findConnectedServices serviceCalls startService maxDepth))
   \<and> (startService \<noteq> [] \<longrightarrow>
        \<lparr>key = startService\<rparr>
          \<in> set (nodes (formatServiceCalls serviceCalls (Some startService) maxDepth)))"
proof -
  obtain ms where "nodes (findConnectedServices serviceCalls startService maxDepth) = startService # ms"
    by (rule findConnectedServices_discovery)
  then show ?thesis
    by (simp add: formatServiceCalls_def)
qed

text \<open>C5 at a focal service \<open>z\<close> that no edge names.\<close>

theorem C5_focal_present_witness:
  "''z'' \<in> set (nodes (findConnectedServices [\<lparr>parent = ''a'', child = ''b'', callCount = 3\<rparr>] ''z'' 2))
   \<and> ''z'' \<noteq> []
   \<and> \<lparr>key = ''z''\<rparr>
        \<in> set (nodes (formatServiceCalls [\<lparr>parent = ''a'', child = ''b'', callCount = 3\<rparr>] (Some ''z'') 2))"
  using C5_focal_present[of "''z''" "[\<lparr>parent = ''a'', child = ''b'', callCount = 3\<rparr>]" 2]
  by simp

text \<open>
  C8. Every node of the result is at most \<open>maxDepth\<close> hops away from the focal service, the
  edges taken in either direction, so the node set (whose size is the length of the list of
  nodes) is no larger than the set of the services within that many hops (which
  \<open>within_hops\<close> lists).
\<close>

theorem C8_within_depth:
  "(\<forall>n \<in> set (nodes (findConnectedServices serviceCalls startService maxDepth)).
      \<exists>j \<le> nat maxDepth. hops serviceCalls startService j n)
   \<and> length (nodes (findConnectedServices serviceCalls startService maxDepth))
       = card (set (nodes (findConnectedServices serviceCalls startService maxDepth)))
   \<and> card (set (nodes (findConnectedServices serviceCalls startService maxDepth)))
       \<le> card {x. \<exists>j \<le> nat maxDepth. hops serviceCalls startService j x}
   \<and> {x. \<exists>j \<le> nat maxDepth. hops serviceCalls startService j x}
       = set (within_hops serviceCalls startService (nat maxDepth))"
proof -
  let ?r = "findConnectedServices serviceCalls startService maxDepth"
  let ?W = "set (within_hops serviceCalls startService (nat maxDepth))"
  have sub: "\<forall>n \<in> set (nodes ?r). n \<in> ?W"
    using findConnectedServices_reach_inv[of serviceCalls startService maxDepth]
    by (simp add: reach_inv_def)
  then have "card (set (nodes ?r)) \<le> card ?W"
    by (intro card_mono) auto
  moreover have "length (nodes ?r) = card (set (nodes ?r))"
    by (rule distinct_card[OF findConnectedServices_distinct, symmetric])
  ultimately show ?thesis
    using sub by (simp add: within_hops_Collect within_hops_iff)
qed

text \<open>C8 at the example with focal service \<open>a\<close> and depth 2, for the node \<open>c\<close>.\<close>

theorem C8_within_depth_witness:
  "''c'' \<in> set (nodes (findConnectedServices example_calls ''a'' 2))
   \<and> (\<exists>j \<le> nat 2. hops example_calls ''a'' j ''c'')
   \<and> length (nodes (findConnectedServices example_calls ''a'' 2))
       = card (set (nodes (findConnectedServices example_calls ''a'' 2)))
   \<and> card (set (nodes (findConnectedServices example_calls ''a'' 2)))
       \<le> card {x. \<exists>j \<le> nat 2. hops example_calls ''a'' j x}
   \<and> {x. \<exists>j \<le> nat 2. hops example_calls ''a'' j x} = set (within_hops example_calls ''a'' (nat 2))"
proof -
  have n: "''c'' \<in> set (nodes (findConnectedServices example_calls ''a'' 2))"
    by code_simp
  from C8_within_depth[of example_calls "''a''" 2] n show ?thesis
    by blast
qed

section \<open>Properties of formatServiceCalls\<close>

text \<open>
  C6. In the unfiltered mode (no focal service, or the empty one) \<open>formatServiceCalls\<close> emits
  one edge for every call that survives the filter and none for a call with an empty or
  white-space parent or child; the vertex keys are the names of the surviving calls in the
  order they are first seen, but the names \<open>Object.prototype\<close> has a property for; no key is
  empty or white space, and no key is emitted twice. The input with the one call from \<open>a\<close> to
  the empty name gives no node and no edge.
\<close>

theorem C6_unfiltered:
  assumes "selectedService = None \<or> selectedService = Some []"
  shows "edges (formatServiceCalls serviceCalls selectedService selectedDepth)
           = map toEdge (filter survives serviceCalls)
     \<and> map key (nodes (formatServiceCalls serviceCalls selectedService selectedDepth))
           = filter (\<lambda>k. k \<notin> set Object_prototype_keys)
               (first_seen (call_names (filter survives serviceCalls)))
     \<and> (\<forall>v \<in> set (nodes (formatServiceCalls serviceCalls selectedService selectedDepth)).
           key v \<noteq> [] \<and> \<not> whitespace_only (key v))
     \<and> distinct (map key (nodes (formatServiceCalls serviceCalls selectedService selectedDepth)))
     \<and> formatServiceCalls [\<lparr>parent = ''a'', child = '''', callCount = 2\<rparr>]
           selectedService selectedDepth = \<lparr>nodes = [], edges = []\<rparr>"
proof -
  let ?out = "formatServiceCalls serviceCalls selectedService selectedDepth"
  note u = formatServiceCalls_unfiltered[OF assms, of serviceCalls selectedDepth]
  have "\<forall>k \<in> set (map key (nodes ?out)). \<not> whitespace_only k"
    unfolding u(2) using call_names_survive by (auto simp: set_first_seen)
  then have "\<forall>v \<in> set (nodes ?out). key v \<noteq> [] \<and> \<not> whitespace_only (key v)"
    using whitespace_only_Nil by auto
  moreover have "distinct (map key (nodes ?out))"
    unfolding u(2) by (simp add: distinct_first_seen)
  moreover have "formatServiceCalls [\<lparr>parent = ''a'', child = '''', callCount = 2\<rparr>]
           selectedService selectedDepth = \<lparr>nodes = [], edges = []\<rparr>"
    using assms by (auto simp: formatServiceCalls_def add_call_def trim_def)
  ultimately show ?thesis
    using u by blast
qed

text \<open>C6 at three calls, the second with a white-space parent.\<close>

theorem C6_unfiltered_witness:
  "(None = (None :: string option) \<or> None = Some [])
   \<and> edges (formatServiceCalls
        [\<lparr>parent = ''x'', child = ''y'', callCount = 1\<rparr>,
         \<lparr>parent = '' '', child = ''x'', callCount = 3\<rparr>,
         \<lparr>parent = ''y'', child = ''x'', callCount = 2\<rparr>] None 0)
     = map toEdge (filter survives
        [\<lparr>parent = ''x'', child = ''y'', callCount = 1\<rparr>,
         \<lparr>parent = '' '', child = ''x'', callCount = 3\<rparr>,
         \<lparr>parent = ''y'', child = ''x'', callCount = 2\<rparr>])
   \<and> map key (nodes (formatServiceCalls
        [\<lparr>parent = ''x'', child = ''y'', callCount = 1\<rparr>,
         \<lparr>parent = '' '', child = ''x'', callCount = 3\<rparr>,
         \<lparr>parent = ''y'', child = ''x'', callCount = 2\<rparr>] None 0))
     = [''x'', ''y'']
   \<and> \<lparr>key = ''y''\<rparr> \<in> set (nodes (formatServiceCalls
        [\<lparr>parent = ''x'', child = ''y'', callCount = 1\<rparr>,
         \<lparr>parent = '' '', child = ''x'', callCount = 3\<rparr>,
         \<lparr>parent = ''y'', child = ''x'', callCount = 2\<rparr>] None 0))
   \<and> key \<lparr>key = ''y''\<rparr> \<noteq> [] \<and> \<not> whitespace_only (key \<lparr>key = ''y''\<rparr>)
   \<and> distinct (map key (nodes (formatServiceCalls
        [\<lparr>parent = ''x'', child = ''y'', callCount = 1\<rparr>,
         \<lparr>parent = '' '', child = ''x'', callCount = 3\<rparr>,
         \<lparr>parent = ''y'', child = ''x'', callCount = 2\<rparr>] None 0)))
   \<and> formatServiceCalls [\<lparr>parent = ''a'', child = [], callCount = 2\<rparr>] None 0
     = \<lparr>nodes = [], edges = []\<rparr>"
proof -
  have h: "None = (None :: string option) \<or> None = Some []"
    by simp
  have m: "\<lparr>key = ''y''\<rparr> \<in> set (nodes (formatServiceCalls
        [\<lparr>parent = ''x'', child = ''y'', callCount = 1\<rparr>,
         \<lparr>parent = '' '', child = ''x'', callCount = 3\<rparr>,
         \<lparr>parent = ''y'', child = ''x'', callCount = 2\<rparr>] None 0))"
    by code_simp
  have k: "map key (nodes (formatServiceCalls
        [\<lparr>parent = ''x'', child = ''y'', callCount = 1\<rparr>,
         \<lparr>parent = '' '', child = ''x'', callCount = 3\<rparr>,
         \<lparr>parent = ''y'', child = ''x'', callCount = 2\<rparr>] None 0))
     = [''x'', ''y'']"
    by code_simp
  from C6_unfiltered[OF h, of "[\<lparr>parent = ''x'', child = ''y'', callCount = 1\<rparr>,
         \<lparr>parent = '' '', child = ''x'', callCount = 3\<rparr>,
         \<lparr>parent = ''y'', child = ''x'', callCount = 2\<rparr>]" 0] m k h
  show ?thesis
    by blast
qed



section \<open>Properties of the DAG component\<close>

text \<open>
  C9. The component returns the error panel exactly when the number of formatted nodes
  exceeds \<open>DAG_MAX_NUM_SERVICES\<close>; the message of the panel holds the digits of that number,
  which denote it in decimal; and the component returns the graph of the formatted edges and
  nodes otherwise.
\<close>

theorem C9_node_count_ceiling:
  "(\<exists>msg. DAG DAG_MAX_NUM_SERVICES serviceCalls selectedDepth selectedService = DAG_error msg)
     = (DAG_MAX_NUM_SERVICES
          < length (nodes (formatServiceCalls serviceCalls (Some selectedService) selectedDepth)))
   \<and> (DAG_MAX_NUM_SERVICES
          < length (nodes (formatServiceCalls serviceCalls (Some selectedService) selectedDepth))
        \<longrightarrow> DAG DAG_MAX_NUM_SERVICES serviceCalls selectedDepth selectedService
            = DAG_error (too_many_services
                (length (nodes (formatServiceCalls serviceCalls (Some selectedService) selectedDepth)))))
   \<and> string_to_nat (nat_to_string
          (length (nodes (formatServiceCalls serviceCalls (Some selectedService) selectedDepth))))
       = length (nodes (formatServiceCalls serviceCalls (Some selectedService) selectedDepth))
   \<and> (\<not> DAG_MAX_NUM_SERVICES
          < length (nodes (formatServiceCalls serviceCalls (Some selectedService) selectedDepth))
        \<longrightarrow> DAG DAG_MAX_NUM_SERVICES serviceCalls selectedDepth selectedService
            = Digraph (edges (formatServiceCalls serviceCalls (Some selectedService) selectedDepth))
                (nodes (formatServiceCalls serviceCalls (Some selectedService) selectedDepth)))"
  by (simp add: DAG_def too_many_services_def Let_def string_to_nat_to_string)

text \<open>C9 at the example, whose four nodes exceed a maximum of 3 and do not exceed 4.\<close>

theorem C9_node_count_ceiling_witness:
  "(3::nat) < length (nodes (formatServiceCalls example_calls (Some ''b'') 2))
   \<and> DAG 3 example_calls 2 ''b''
      = DAG_error ''Too many services to render (4). Hierarchical layout is disabled. For the Force-Directed layout, please select a focal service and the depth.''
   \<and> \<not> (4::nat) < length (nodes (formatServiceCalls example_calls (Some ''b'') 2))
   \<and> DAG 4 example_calls 2 ''b''
      = Digraph (edges (formatServiceCalls example_calls (Some ''b'') 2))
          (nodes (formatServiceCalls example_calls (Some ''b'') 2))"
proof -
  have n: "length (nodes (formatServiceCalls example_calls (Some ''b'') 2)) = 4"
    by code_simp
  have t: "too_many_services 4 = ''Too many services to render (4). Hierarchical layout is disabled. For the Force-Directed layout, please select a focal service and the depth.''"
    by code_simp
  from C9_node_count_ceiling[of 3 example_calls 2 "''b''"]
       C9_node_count_ceiling[of 4 example_calls 2 "''b''"] n t
  show ?thesis
    by simp
qed



end
